theory Spec2Isabelle
  imports Complex_Main
begin

section \<open>The fixed-point encoder of generate\_mappings.py\<close>

text \<open>
  The encoder \<^verbatim>\<open>float_to_bin_str(number, int_bits, frac_bits)\<close> is embedded over
  exact real arithmetic: \<open>number\<close> is a \<^typ>\<open>real\<close>, the Python integers
  \<open>bit_idx\<close>, \<open>int_bits\<close> and \<open>frac_bits\<close> are \<^typ>\<open>int\<close>, and the two
  strings are \<^typ>\<open>string\<close>. Each \<^verbatim>\<open>while\<close> loop is a recursive function with
  its own termination proof. The arithmetic is exact: the rounding of Python's
  floating-point addition and the underflow of \<^verbatim>\<open>2**bit_idx\<close> are not part of the
  model, which follows the code on the real numbers that the specification speaks of.
\<close>

subsection \<open>Powers of two with an integer exponent\<close>

text \<open>
  Python's \<^verbatim>\<open>2**bit_idx\<close>: an integer power for a non-negative exponent, the
  reciprocal power for a negative one.
\<close>

definition pow2 :: "int \<Rightarrow> real" where
  "pow2 i = (if 0 \<le> i then 2 ^ nat i else 1 / 2 ^ nat (- i))"

subsection \<open>The magnitude search (source lines 26 to 32)\<close>

text \<open>\<^verbatim>\<open>while( (-(2**bit_idx)) > number): bit_idx += 1\<close>\<close>

function search_neg :: "real \<Rightarrow> int \<Rightarrow> int" where
  "search_neg number bit_idx =
     (if - pow2 bit_idx > number then search_neg number (bit_idx + 1) else bit_idx)"
  by pat_completeness auto
termination
proof (relation "measure (\<lambda>(number, bit_idx). nat (\<lceil>- number\<rceil> - bit_idx))")
  show "wf (measure (\<lambda>(number, bit_idx). nat (\<lceil>- number\<rceil> - bit_idx)))" by simp
next
  fix number :: real and bit_idx :: int
  assume loop: "number < - pow2 bit_idx"
  have "real_of_int bit_idx < pow2 bit_idx"
  proof (cases "0 \<le> bit_idx")
    case True
    have "real (nat bit_idx) < 2 ^ nat bit_idx" by (rule of_nat_less_two_power)
    with True show ?thesis by (simp add: pow2_def)
  next
    case False
    then have "real_of_int bit_idx < 0" by simp
    also have "(0::real) < 1 / 2 ^ nat (- bit_idx)" by simp
    finally show ?thesis using False by (simp add: pow2_def)
  qed
  with loop have "real_of_int bit_idx < - number" by linarith
  then have "bit_idx < \<lceil>- number\<rceil>" by linarith
  then show "((number, bit_idx + 1), (number, bit_idx))
      \<in> measure (\<lambda>(number, bit_idx). nat (\<lceil>- number\<rceil> - bit_idx))"
    by simp
qed

text \<open>\<^verbatim>\<open>while((2**bit_idx) <= number): bit_idx += 1\<close>\<close>

function search_pos :: "real \<Rightarrow> int \<Rightarrow> int" where
  "search_pos number bit_idx =
     (if pow2 bit_idx \<le> number then search_pos number (bit_idx + 1) else bit_idx)"
  by pat_completeness auto
termination
proof (relation "measure (\<lambda>(number, bit_idx). nat (\<lceil>number\<rceil> - bit_idx))")
  show "wf (measure (\<lambda>(number, bit_idx). nat (\<lceil>number\<rceil> - bit_idx)))" by simp
next
  fix number :: real and bit_idx :: int
  assume loop: "pow2 bit_idx \<le> number"
  have "real_of_int bit_idx < pow2 bit_idx"
  proof (cases "0 \<le> bit_idx")
    case True
    have "real (nat bit_idx) < 2 ^ nat bit_idx" by (rule of_nat_less_two_power)
    with True show ?thesis by (simp add: pow2_def)
  next
    case False
    then have "real_of_int bit_idx < 0" by simp
    also have "(0::real) < 1 / 2 ^ nat (- bit_idx)" by simp
    finally show ?thesis using False by (simp add: pow2_def)
  qed
  with loop have "real_of_int bit_idx < number" by linarith
  then have "bit_idx < \<lceil>number\<rceil>" by linarith
  then show "((number, bit_idx + 1), (number, bit_idx))
      \<in> measure (\<lambda>(number, bit_idx). nat (\<lceil>number\<rceil> - bit_idx))"
    by simp
qed

text \<open>
  The value of \<open>bit_idx\<close> when the search is over: the negative branch leaves the
  loop's index, the other branch subtracts one (source line 32).
\<close>

definition start_idx :: "real \<Rightarrow> int" where
  "start_idx number =
     (if number < 0 then search_neg number 0 else search_pos number 0 - 1)"

subsection \<open>The greedy accumulation (source lines 34 to 56)\<close>

text \<open>
  The loop state is the triple of the accumulator \<open>acc\<close>, the string built so far and
  \<open>bit_idx\<close>. Before the integer loop a negative number sets \<open>acc\<close> to
  \<open>-(2**bit_idx)\<close>, steps the index down and emits the sign bit (lines 34 to 38).
\<close>

type_synonym loop_state = "real \<times> string \<times> int"

definition init_state :: "real \<Rightarrow> loop_state" where
  "init_state number =
     (let bit_idx = start_idx number in
      if number < 0 then (- pow2 bit_idx, ''1'', bit_idx - 1)
      else (0, [], bit_idx))"

text \<open>\<^verbatim>\<open>while(bit_idx > -1)\<close>, lines 40 to 47.\<close>

function int_loop :: "real \<Rightarrow> loop_state \<Rightarrow> loop_state" where
  "int_loop number (acc, int_bits_str, bit_idx) =
     (if bit_idx > - 1 then
        (let calc = acc + pow2 bit_idx in
         if calc \<le> number then int_loop number (calc, int_bits_str @ ''1'', bit_idx - 1)
         else int_loop number (acc, int_bits_str @ ''0'', bit_idx - 1))
      else (acc, int_bits_str, bit_idx))"
  by pat_completeness auto
termination
  by (relation "measure (\<lambda>(number, acc, s, bit_idx). nat (bit_idx + 1))") auto

text \<open>\<^verbatim>\<open>while(bit_idx >= (-(frac_bits)))\<close>, lines 49 to 56.\<close>

function frac_loop :: "real \<Rightarrow> int \<Rightarrow> loop_state \<Rightarrow> loop_state" where
  "frac_loop number frac_bits (acc, frac_bits_str, bit_idx) =
     (if bit_idx \<ge> - frac_bits then
        (let calc = acc + pow2 bit_idx in
         if calc \<le> number then
           frac_loop number frac_bits (calc, frac_bits_str @ ''1'', bit_idx - 1)
         else frac_loop number frac_bits (acc, frac_bits_str @ ''0'', bit_idx - 1))
      else (acc, frac_bits_str, bit_idx))"
  by pat_completeness auto
termination
  by (relation "measure (\<lambda>(number, frac_bits, acc, s, bit_idx). nat (bit_idx + frac_bits + 1))")
    auto

text \<open>The state after the integer loop; its string is the raw integer part.\<close>

definition raw_state :: "real \<Rightarrow> loop_state" where
  "raw_state number = int_loop number (init_state number)"

definition raw_int_str :: "real \<Rightarrow> string" where
  "raw_int_str number = fst (snd (raw_state number))"

subsection \<open>Width adjustment and the result (source lines 58 to 68)\<close>

text \<open>
  Both tests use the length of the raw string. The slice
  \<^verbatim>\<open>int_bits_str[int_str_len - int_bits:]\<close> has a positive start index there, so it
  drops that many leading characters.
\<close>

definition adjust_width :: "bool \<Rightarrow> int \<Rightarrow> string \<Rightarrow> string" where
  "adjust_width negative int_bits int_bits_str =
     (let int_str_len = int (length int_bits_str);
          padded =
            (if int_str_len < int_bits then
               (if negative then replicate (nat (int_bits - int_str_len)) (CHR ''1'') @ int_bits_str
                else replicate (nat (int_bits - int_str_len)) (CHR ''0'') @ int_bits_str)
             else int_bits_str)
      in if int_str_len > int_bits then drop (nat (int_str_len - int_bits)) padded
         else padded)"

definition float_to_bin_str :: "real \<Rightarrow> int \<Rightarrow> int \<Rightarrow> string \<times> string" where
  "float_to_bin_str number int_bits frac_bits =
     (let negative = (number < 0);
          (acc, int_bits_str, bit_idx) = raw_state number;
          (acc', frac_bits_str, bit_idx') = frac_loop number frac_bits (acc, [], bit_idx)
      in (adjust_width negative int_bits int_bits_str, frac_bits_str))"

subsection \<open>Counting loop iterations\<close>

text \<open>
  One counter per loop, following the loop's own test and branches: each function
  returns how many times the body of its loop runs from the given state.
\<close>

function search_neg_iters :: "real \<Rightarrow> int \<Rightarrow> nat" where
  "search_neg_iters number bit_idx =
     (if - pow2 bit_idx > number then Suc (search_neg_iters number (bit_idx + 1)) else 0)"
  by pat_completeness auto
termination
proof (relation "measure (\<lambda>(number, bit_idx). nat (\<lceil>- number\<rceil> - bit_idx))")
  show "wf (measure (\<lambda>(number, bit_idx). nat (\<lceil>- number\<rceil> - bit_idx)))" by simp
next
  fix number :: real and bit_idx :: int
  assume loop: "number < - pow2 bit_idx"
  have "real_of_int bit_idx < pow2 bit_idx"
  proof (cases "0 \<le> bit_idx")
    case True
    have "real (nat bit_idx) < 2 ^ nat bit_idx" by (rule of_nat_less_two_power)
    with True show ?thesis by (simp add: pow2_def)
  next
    case False
    then have "real_of_int bit_idx < 0" by simp
    also have "(0::real) < 1 / 2 ^ nat (- bit_idx)" by simp
    finally show ?thesis using False by (simp add: pow2_def)
  qed
  with loop have "real_of_int bit_idx < - number" by linarith
  then have "bit_idx < \<lceil>- number\<rceil>" by linarith
  then show "((number, bit_idx + 1), (number, bit_idx))
      \<in> measure (\<lambda>(number, bit_idx). nat (\<lceil>- number\<rceil> - bit_idx))"
    by simp
qed

function search_pos_iters :: "real \<Rightarrow> int \<Rightarrow> nat" where
  "search_pos_iters number bit_idx =
     (if pow2 bit_idx \<le> number then Suc (search_pos_iters number (bit_idx + 1)) else 0)"
  by pat_completeness auto
termination
proof (relation "measure (\<lambda>(number, bit_idx). nat (\<lceil>number\<rceil> - bit_idx))")
  show "wf (measure (\<lambda>(number, bit_idx). nat (\<lceil>number\<rceil> - bit_idx)))" by simp
next
  fix number :: real and bit_idx :: int
  assume loop: "pow2 bit_idx \<le> number"
  have "real_of_int bit_idx < pow2 bit_idx"
  proof (cases "0 \<le> bit_idx")
    case True
    have "real (nat bit_idx) < 2 ^ nat bit_idx" by (rule of_nat_less_two_power)
    with True show ?thesis by (simp add: pow2_def)
  next
    case False
    then have "real_of_int bit_idx < 0" by simp
    also have "(0::real) < 1 / 2 ^ nat (- bit_idx)" by simp
    finally show ?thesis using False by (simp add: pow2_def)
  qed
  with loop have "real_of_int bit_idx < number" by linarith
  then have "bit_idx < \<lceil>number\<rceil>" by linarith
  then show "((number, bit_idx + 1), (number, bit_idx))
      \<in> measure (\<lambda>(number, bit_idx). nat (\<lceil>number\<rceil> - bit_idx))"
    by simp
qed

function int_loop_iters :: "real \<Rightarrow> loop_state \<Rightarrow> nat" where
  "int_loop_iters number (acc, int_bits_str, bit_idx) =
     (if bit_idx > - 1 then
        (let calc = acc + pow2 bit_idx in
         if calc \<le> number then
           Suc (int_loop_iters number (calc, int_bits_str @ ''1'', bit_idx - 1))
         else Suc (int_loop_iters number (acc, int_bits_str @ ''0'', bit_idx - 1)))
      else 0)"
  by pat_completeness auto
termination
  by (relation "measure (\<lambda>(number, acc, s, bit_idx). nat (bit_idx + 1))") auto

function frac_loop_iters :: "real \<Rightarrow> int \<Rightarrow> loop_state \<Rightarrow> nat" where
  "frac_loop_iters number frac_bits (acc, frac_bits_str, bit_idx) =
     (if bit_idx \<ge> - frac_bits then
        (let calc = acc + pow2 bit_idx in
         if calc \<le> number then
           Suc (frac_loop_iters number frac_bits (calc, frac_bits_str @ ''1'', bit_idx - 1))
         else Suc (frac_loop_iters number frac_bits (acc, frac_bits_str @ ''0'', bit_idx - 1)))
      else 0)"
  by pat_completeness auto
termination
  by (relation "measure (\<lambda>(number, frac_bits, acc, s, bit_idx). nat (bit_idx + frac_bits + 1))")
    auto

definition search_iters :: "real \<Rightarrow> nat" where
  "search_iters number =
     (if number < 0 then search_neg_iters number 0 else search_pos_iters number 0)"

definition float_to_bin_str_iters :: "real \<Rightarrow> int \<Rightarrow> int \<Rightarrow> nat" where
  "float_to_bin_str_iters number int_bits frac_bits =
     (let (acc, int_bits_str, bit_idx) = raw_state number
      in search_iters number + int_loop_iters number (init_state number)
           + frac_loop_iters number frac_bits (acc, [], bit_idx))"

subsection \<open>Reading bit strings\<close>

text \<open>
  The claims speak of the numbers that the returned strings denote. A string is read
  most significant bit first; a character other than \<open>1\<close> counts as a zero bit.
  \<open>twos_val\<close> is the two's-complement reading, in which the leading bit of a string
  of \<open>n\<close> bits has the weight \<open>- 2 ^ (n - 1)\<close>, and \<open>fixed_decode\<close> scales
  it by the number of fractional bits.
\<close>

definition bit_of :: "char \<Rightarrow> nat" where
  "bit_of c = (if c = CHR ''1'' then 1 else 0)"

fun bin_val :: "string \<Rightarrow> nat" where
  "bin_val [] = 0"
| "bin_val (c # s) = bit_of c * 2 ^ length s + bin_val s"



definition is_bits :: "string \<Rightarrow> bool" where
  "is_bits s = (set s \<subseteq> {CHR ''0'', CHR ''1''})"

declare search_neg.simps [simp del]
declare search_pos.simps [simp del]
declare int_loop.simps [simp del]
declare frac_loop.simps [simp del]
declare search_neg_iters.simps [simp del]
declare search_pos_iters.simps [simp del]
declare int_loop_iters.simps [simp del]
declare frac_loop_iters.simps [simp del]

section \<open>Auxiliary facts\<close>

subsection \<open>Powers of two and bit strings\<close>

lemma pow2_pos: "0 < pow2 i" by (simp add: pow2_def)

lemma pow2_powi: "pow2 i = 2 powi i"
  by (simp add: pow2_def power_int_def field_simps)

lemma pow2_add: "pow2 (i + j) = pow2 i * pow2 j"
  by (simp add: pow2_powi power_int_add)

lemma pow2_nat: "pow2 (int n) = 2 ^ n" by (simp add: pow2_def)

lemma pow2_Suc: "pow2 (i + 1) = 2 * pow2 i"
  by (simp add: pow2_add) (simp add: pow2_def)

lemma pow2_0: "pow2 0 = 1" by (simp add: pow2_def)






subsection \<open>The loops\<close>

text \<open>The integer loop is the fractional loop with the lower bound \<open>0\<close>.\<close>

lemma int_loop_frac_loop: "int_loop number st = frac_loop number 0 st"
proof (induction number st rule: int_loop.induct)
  case (1 number acc s i)
  show ?case
  proof (cases "i > - 1")
    case True
    then show ?thesis
      using "1.IH" by (simp add: int_loop.simps [of number acc s i] frac_loop.simps [of number 0 acc s i] Let_def)
  next
    case False
    then show ?thesis
      by (simp add: int_loop.simps [of number acc s i] frac_loop.simps [of number 0 acc s i])
  qed
qed

lemma frac_loop_spec:
  assumes "frac_loop number fb (acc, s, i) = (acc', s', i')" and "- fb - 1 \<le> i"
  shows "i' = - fb - 1 \<and>
         (\<exists>bits. s' = s @ bits \<and> int (length bits) = i + fb + 1 \<and> is_bits bits \<and>
            acc' = acc + real (bin_val bits) * pow2 (- fb)) \<and>
         (acc \<le> number \<and> number < acc + pow2 (i + 1) \<longrightarrow>
            acc' \<le> number \<and> number < acc' + pow2 (- fb))"
  using assms
proof (induction number fb "(acc, s, i)" arbitrary: acc s i rule: frac_loop.induct)
  case (1 number fb acc s i)
  show ?case
  proof (cases "i \<ge> - fb")
    case False
    with "1.prems" have eq: "acc' = acc" "s' = s" "i' = i" and i: "i = - fb - 1"
      by (simp_all add: frac_loop.simps [of number fb acc s i])
    have "s' = s @ [] \<and> int (length ([]::string)) = i + fb + 1 \<and> is_bits [] \<and>
            acc' = acc + real (bin_val []) * pow2 (- fb)"
      using eq i by (simp add: is_bits_def)
    then have ex: "\<exists>bits. s' = s @ bits \<and> int (length bits) = i + fb + 1 \<and> is_bits bits \<and>
            acc' = acc + real (bin_val bits) * pow2 (- fb)" by blast
    have "i + 1 = - fb" using i by simp
    then show ?thesis using eq i ex by simp
  next
    case True
    define b where "b = (acc + pow2 i \<le> number)"
    define c where "c = (if b then CHR ''1'' else CHR ''0'')"
    define acc1 where "acc1 = (if b then acc + pow2 i else acc)"
    have step: "frac_loop number fb (acc, s, i) = frac_loop number fb (acc1, s @ [c], i - 1)"
      using True by (simp add: frac_loop.simps [of number fb acc s i] Let_def b_def c_def acc1_def)
    with "1.prems" have run: "frac_loop number fb (acc1, s @ [c], i - 1) = (acc', s', i')" by simp
    have lo: "- fb - 1 \<le> i - 1" using True by simp
    have IH: "i' = - fb - 1 \<and>
         (\<exists>bits. s' = (s @ [c]) @ bits \<and> int (length bits) = (i - 1) + fb + 1 \<and> is_bits bits \<and>
            acc' = acc1 + real (bin_val bits) * pow2 (- fb)) \<and>
         (acc1 \<le> number \<and> number < acc1 + pow2 ((i - 1) + 1) \<longrightarrow>
            acc' \<le> number \<and> number < acc' + pow2 (- fb))"
    proof (cases b)
      case True
      then have "acc + pow2 i \<le> number" by (simp add: b_def)
      moreover have "frac_loop number fb (acc + pow2 i, s @ ''1'', i - 1) = (acc', s', i')"
        using run True by (simp add: acc1_def c_def)
      ultimately show ?thesis
        using "1.hyps"(1) [OF \<open>i \<ge> - fb\<close> refl _ _ lo] True by (simp add: acc1_def c_def)
    next
      case False
      then have "\<not> acc + pow2 i \<le> number" by (simp add: b_def)
      moreover have "frac_loop number fb (acc, s @ ''0'', i - 1) = (acc', s', i')"
        using run False by (simp add: acc1_def c_def)
      ultimately show ?thesis
        using "1.hyps"(2) [OF \<open>i \<ge> - fb\<close> refl _ _ lo] False by (simp add: acc1_def c_def)
    qed
    then obtain bits where bits: "s' = (s @ [c]) @ bits" "int (length bits) = i + fb" "is_bits bits"
        "acc' = acc1 + real (bin_val bits) * pow2 (- fb)"
      by auto
    have len: "pow2 i = 2 ^ length bits * pow2 (- fb)"
    proof -
      have "pow2 i = pow2 (int (length bits) + (- fb))" using bits(2) by simp
      also have "\<dots> = pow2 (int (length bits)) * pow2 (- fb)" by (rule pow2_add)
      finally show ?thesis by (simp add: pow2_nat)
    qed
    have acc1: "acc1 = acc + real (bit_of c) * pow2 i"
      by (simp add: acc1_def c_def bit_of_def)
    have "s' = s @ (c # bits) \<and> int (length (c # bits)) = i + fb + 1 \<and> is_bits (c # bits) \<and>
            acc' = acc + real (bin_val (c # bits)) * pow2 (- fb)"
      using bits acc1 len by (simp add: is_bits_def c_def algebra_simps)
    then have ex: "\<exists>bits. s' = s @ bits \<and> int (length bits) = i + fb + 1 \<and> is_bits bits \<and>
            acc' = acc + real (bin_val bits) * pow2 (- fb)" by blast
    have inv: "acc1 \<le> number \<and> number < acc1 + pow2 i"
      if "acc \<le> number" "number < acc + pow2 (i + 1)"
      using that by (cases b) (simp_all add: acc1_def b_def pow2_Suc)
    show ?thesis using IH ex inv by simp
  qed
qed


lemma search_neg_spec:
  "search_neg number k0 = k \<Longrightarrow>
     k0 \<le> k \<and> - pow2 k \<le> number \<and> (\<forall>j. k0 \<le> j \<and> j < k \<longrightarrow> number < - pow2 j)"
proof (induction number k0 rule: search_neg.induct)
  case (1 number i)
  show ?case
  proof (cases "- pow2 i > number")
    case True
    with "1.prems" have "search_neg number (i + 1) = k"
      by (simp add: search_neg.simps [of number i])
    from "1.IH" [OF True this] have IH: "i + 1 \<le> k" "- pow2 k \<le> number"
      "\<forall>j. i + 1 \<le> j \<and> j < k \<longrightarrow> number < - pow2 j" by auto
    have "number < - pow2 j" if "i \<le> j" "j < k" for j
    proof (cases "j = i")
      case True
      with \<open>- pow2 i > number\<close> show ?thesis by simp
    next
      case False
      with that IH(3) show ?thesis by simp
    qed
    with IH show ?thesis by simp
  next
    case False
    with "1.prems" have "k = i" by (simp add: search_neg.simps [of number i])
    with False show ?thesis by simp
  qed
qed

lemma search_pos_spec:
  "search_pos number k0 = k \<Longrightarrow>
     k0 \<le> k \<and> number < pow2 k \<and> (\<forall>j. k0 \<le> j \<and> j < k \<longrightarrow> pow2 j \<le> number)"
proof (induction number k0 rule: search_pos.induct)
  case (1 number i)
  show ?case
  proof (cases "pow2 i \<le> number")
    case True
    with "1.prems" have "search_pos number (i + 1) = k"
      by (simp add: search_pos.simps [of number i])
    from "1.IH" [OF True this] have IH: "i + 1 \<le> k" "number < pow2 k"
      "\<forall>j. i + 1 \<le> j \<and> j < k \<longrightarrow> pow2 j \<le> number" by auto
    have "pow2 j \<le> number" if "i \<le> j" "j < k" for j
    proof (cases "j = i")
      case True
      with \<open>pow2 i \<le> number\<close> show ?thesis by simp
    next
      case False
      with that IH(3) show ?thesis by simp
    qed
    with IH show ?thesis by simp
  next
    case False
    with "1.prems" have "k = i" by (simp add: search_pos.simps [of number i])
    with False show ?thesis by simp
  qed
qed

lemma init_state_inv:
  assumes "init_state number = (acc0, s0, i0)"
  shows "- 1 \<le> i0" and "acc0 \<le> number" and "number < acc0 + pow2 (i0 + 1)"
    and "s0 = (if number < 0 then ''1'' else [])"
    and "\<exists>z::int. acc0 = real_of_int z"
    and "i0 = (if number < 0 then start_idx number - 1 else start_idx number)"
    and "acc0 = (if number < 0 then - pow2 (start_idx number) else 0)"
proof -
  show "s0 = (if number < 0 then ''1'' else [])"
    and "i0 = (if number < 0 then start_idx number - 1 else start_idx number)"
    and a: "acc0 = (if number < 0 then - pow2 (start_idx number) else 0)"
    using assms by (simp_all add: init_state_def Let_def split: if_splits)
  show "- 1 \<le> i0" and "acc0 \<le> number" and "number < acc0 + pow2 (i0 + 1)"
    and "\<exists>z::int. acc0 = real_of_int z"
  proof -
    consider (neg) "number < 0" | (pos) "0 \<le> number" by linarith
    then have "- 1 \<le> i0 \<and> acc0 \<le> number \<and> number < acc0 + pow2 (i0 + 1)
        \<and> (\<exists>z::int. acc0 = real_of_int z)"
    proof cases
      case neg
      define k where "k = search_neg number 0"
      from search_neg_spec [OF k_def [symmetric]] have k: "0 \<le> k" "- pow2 k \<le> number" by auto
      from assms neg have eq: "acc0 = - pow2 k" "i0 = k - 1"
        by (simp_all add: init_state_def start_idx_def Let_def k_def)
      have "acc0 = real_of_int (- (2 ^ nat k))" using k(1) eq by (simp add: pow2_def)
      then have "\<exists>z::int. acc0 = real_of_int z" ..
      with k eq neg show ?thesis by simp
    next
      case pos
      define k where "k = search_pos number 0"
      from search_pos_spec [OF k_def [symmetric]] have k: "0 \<le> k" "number < pow2 k" by auto
      from assms pos have eq: "acc0 = 0" "i0 = k - 1"
        by (simp_all add: init_state_def start_idx_def Let_def k_def)
      have "acc0 = real_of_int 0" using eq by simp
      then have "\<exists>z::int. acc0 = real_of_int z" ..
      with k eq pos show ?thesis by simp
    qed
    then show "- 1 \<le> i0" and "acc0 \<le> number" and "number < acc0 + pow2 (i0 + 1)"
      and "\<exists>z::int. acc0 = real_of_int z" by blast+
  qed
qed

lemma raw_state_spec:
  obtains bits where
    "raw_state number = (real_of_int \<lfloor>number\<rfloor>, (if number < 0 then ''1'' else []) @ bits, - 1)"
    and "int (length bits) = (if number < 0 then start_idx number else start_idx number + 1)"
    and "is_bits bits"
    and "real_of_int \<lfloor>number\<rfloor> =
           (if number < 0 then - pow2 (start_idx number) else 0) + real (bin_val bits)"
proof -
  obtain acc0 s0 i0 where init: "init_state number = (acc0, s0, i0)"
    by (cases "init_state number") auto
  note inv = init_state_inv [OF init]
  obtain acc s i where raw: "raw_state number = (acc, s, i)"
    by (cases "raw_state number") auto
  then have "frac_loop number 0 (acc0, s0, i0) = (acc, s, i)"
    by (simp add: raw_state_def init int_loop_frac_loop)
  from frac_loop_spec [OF this] inv(1,2,3)
  obtain bits where i: "i = - 1" and s: "s = s0 @ bits" and len: "int (length bits) = i0 + 1"
    and bits: "is_bits bits" and acc: "acc = acc0 + real (bin_val bits)"
    and bnd: "acc \<le> number" "number < acc + 1"
    by (auto simp: pow2_0)
  from inv(5) obtain z :: int where "acc0 = real_of_int z" ..
  with acc have "acc = real_of_int (z + int (bin_val bits))" by simp
  with bnd have fl: "acc = real_of_int \<lfloor>number\<rfloor>" by (metis floor_unique)
  show ?thesis
  proof (rule that [of bits])
    show "raw_state number = (real_of_int \<lfloor>number\<rfloor>, (if number < 0 then ''1'' else []) @ bits, - 1)"
      using raw i s fl inv(4) by simp
    show "int (length bits) = (if number < 0 then start_idx number else start_idx number + 1)"
      using len inv(6) by simp
    show "is_bits bits" by (rule bits)
    show "real_of_int \<lfloor>number\<rfloor> =
           (if number < 0 then - pow2 (start_idx number) else 0) + real (bin_val bits)"
      using acc fl inv(7) by simp
  qed
qed


subsection \<open>The two returned strings\<close>




lemma raw_int_str_length:
  "int (length (raw_int_str number)) = start_idx number + 1"
proof -
  obtain bits where raw: "raw_state number =
      (real_of_int \<lfloor>number\<rfloor>, (if number < 0 then ''1'' else []) @ bits, - 1)"
    and len: "int (length bits) = (if number < 0 then start_idx number else start_idx number + 1)"
    by (rule raw_state_spec)
  then show ?thesis by (simp add: raw_int_str_def)
qed

lemma raw_int_str_bits: "is_bits (raw_int_str number)"
proof -
  obtain bits where raw: "raw_state number =
      (real_of_int \<lfloor>number\<rfloor>, (if number < 0 then ''1'' else []) @ bits, - 1)"
    and "is_bits bits"
    by (rule raw_state_spec)
  then show ?thesis by (auto simp: raw_int_str_def is_bits_def)
qed


lemma is_bits_adjust_width: "is_bits s \<Longrightarrow> is_bits (adjust_width negative int_bits s)"
  by (auto simp: adjust_width_def Let_def is_bits_def dest: in_set_dropD)






lemma pow2_mono: "i \<le> j \<Longrightarrow> pow2 i \<le> pow2 j"
proof -
  assume "i \<le> j"
  then obtain d where d: "j = i + int d" by (metis zle_iff_zadd)
  have "pow2 j = pow2 i * 2 ^ d" unfolding d by (simp add: pow2_add pow2_nat)
  moreover have "(1::real) \<le> 2 ^ d" by simp
  ultimately show ?thesis using pow2_pos [of i] by (simp add: mult_le_cancel_left1)
qed


subsection \<open>Iteration counts\<close>

lemma search_neg_iters_eq:
  "search_neg_iters number k = nat (search_neg number k - k)"
proof (induction number k rule: search_neg.induct)
  case (1 number i)
  show ?case
  proof (cases "- pow2 i > number")
    case True
    from search_neg_spec [where number = number and ?k0.0 = "i + 1", OF refl] have "i + 1 \<le> search_neg number (i + 1)"
      by simp
    then show ?thesis
      using True "1.IH" [OF True]
      by (simp add: search_neg.simps [of number i] search_neg_iters.simps [of number i])
  next
    case False
    then show ?thesis
      by (simp add: search_neg.simps [of number i] search_neg_iters.simps [of number i])
  qed
qed

lemma search_pos_iters_eq:
  "search_pos_iters number k = nat (search_pos number k - k)"
proof (induction number k rule: search_pos.induct)
  case (1 number i)
  show ?case
  proof (cases "pow2 i \<le> number")
    case True
    from search_pos_spec [where number = number and ?k0.0 = "i + 1", OF refl] have "i + 1 \<le> search_pos number (i + 1)"
      by simp
    then show ?thesis
      using True "1.IH" [OF True]
      by (simp add: search_pos.simps [of number i] search_pos_iters.simps [of number i])
  next
    case False
    then show ?thesis
      by (simp add: search_pos.simps [of number i] search_pos_iters.simps [of number i])
  qed
qed

lemma frac_loop_iters_eq:
  "frac_loop_iters number fb st = nat (snd (snd st) + fb + 1)"
proof (induction number fb st rule: frac_loop_iters.induct)
  case (1 number fb acc s i)
  show ?case
  proof (cases "i \<ge> - fb")
    case True
    then show ?thesis
      using "1.IH" by (simp add: frac_loop_iters.simps [of number fb acc s i] Let_def)
  next
    case False
    then show ?thesis
      by (simp add: frac_loop_iters.simps [of number fb acc s i])
  qed
qed

lemma int_loop_iters_eq:
  "int_loop_iters number st = nat (snd (snd st) + 1)"
proof (induction number st rule: int_loop_iters.induct)
  case (1 number acc s i)
  show ?case
  proof (cases "i > - 1")
    case True
    then show ?thesis
      using "1.IH" by (simp add: int_loop_iters.simps [of number acc s i] Let_def)
  next
    case False
    then show ?thesis
      by (simp add: int_loop_iters.simps [of number acc s i])
  qed
qed

lemma search_iters_idx:
  "int (search_iters number) = (if number < 0 then start_idx number else start_idx number + 1)"
proof (cases "number < 0")
  case True
  from search_neg_spec [where number = number and ?k0.0 = 0, OF refl] have "0 \<le> search_neg number 0" by simp
  with True show ?thesis by (simp add: search_iters_def start_idx_def search_neg_iters_eq)
next
  case False
  from search_pos_spec [where number = number and ?k0.0 = 0, OF refl] have "0 \<le> search_pos number 0" by simp
  with False show ?thesis by (simp add: search_iters_def start_idx_def search_pos_iters_eq)
qed

lemma iters_total:
  "float_to_bin_str_iters number int_bits frac_bits = 2 * search_iters number + nat frac_bits"
proof -
  obtain acc0 s0 i0 where init: "init_state number = (acc0, s0, i0)"
    by (cases "init_state number") auto
  from init_state_inv(6) [OF init] search_iters_idx [of number]
  have i0: "i0 + 1 = int (search_iters number)" by (simp split: if_splits)
  obtain bits where raw: "raw_state number =
      (real_of_int \<lfloor>number\<rfloor>, (if number < 0 then ''1'' else []) @ bits, - 1)"
    by (rule raw_state_spec)
  have "int_loop_iters number (init_state number) = search_iters number"
    unfolding init int_loop_iters_eq using i0 by simp
  moreover have "frac_loop_iters number frac_bits (real_of_int \<lfloor>number\<rfloor>, [], - 1) = nat frac_bits"
    unfolding frac_loop_iters_eq by simp
  ultimately show ?thesis by (simp add: float_to_bin_str_iters_def raw)
qed


lemma search_iters_power: "search_iters (2 ^ c) = Suc c"
proof -
  define r where "r = search_pos (2 ^ c) 0"
  from search_pos_spec [OF r_def [symmetric]]
  have r: "0 \<le> r" "(2::real) ^ c < pow2 r" "\<forall>j. 0 \<le> j \<and> j < r \<longrightarrow> pow2 j \<le> (2::real) ^ c" by auto
  have m: "int (search_iters (2 ^ c)) = r" using search_iters_idx [of "2 ^ c"]
    by (simp add: start_idx_def r_def)
  have "(2::real) ^ c < 2 ^ nat r" using r(1,2) by (simp add: pow2_def)
  then have lo: "c < nat r" by simp
  have "\<not> int c + 1 < r"
  proof
    assume "int c + 1 < r"
    with r(3) have "pow2 (int c + 1) \<le> (2::real) ^ c" by simp
    then show False by (simp add: pow2_Suc pow2_nat)
  qed
  with lo have "r = int (Suc c)" by simp
  with m show ?thesis by simp
qed

text \<open>
  No multiple of \<open>int_bits + frac_bits\<close> bounds the number of iterations: with
  \<open>int_bits = 1\<close> and \<open>frac_bits = 0\<close> the value \<open>2 ^ c\<close> takes
  \<open>2 * (c + 1)\<close> iterations.
\<close>

lemma iters_unbounded:
  "\<not> (\<exists>c::nat. \<forall>number int_bits frac_bits. 1 \<le> int_bits \<and> 0 \<le> frac_bits \<longrightarrow>
        float_to_bin_str_iters number int_bits frac_bits \<le> c * nat (int_bits + frac_bits))"
proof
  assume "\<exists>c::nat. \<forall>number int_bits frac_bits. 1 \<le> int_bits \<and> 0 \<le> frac_bits \<longrightarrow>
        float_to_bin_str_iters number int_bits frac_bits \<le> c * nat (int_bits + frac_bits)"
  then obtain c :: nat where "\<forall>number int_bits frac_bits. 1 \<le> int_bits \<and> 0 \<le> frac_bits \<longrightarrow>
        float_to_bin_str_iters number int_bits frac_bits \<le> c * nat (int_bits + frac_bits)" ..
  then have "(1::int) \<le> 1 \<and> (0::int) \<le> 0 \<longrightarrow>
      float_to_bin_str_iters (2 ^ c) 1 0 \<le> c * nat (1 + 0)" by blast
  then show False by (simp add: iters_total search_iters_power)
qed


section \<open>Properties of the encoder\<close>

text \<open>The equations that evaluate the encoder on a concrete input.\<close>

lemmas encoder_eval =
  float_to_bin_str_def raw_state_def init_state_def start_idx_def adjust_width_def pow2_def
  search_neg.simps search_pos.simps int_loop.simps frac_loop.simps Let_def eval_nat_numeral











text \<open>
  Claim C3. The magnitude search leaves in \<open>bit_idx\<close> the index that step 2 of the
  algorithm prescribes: for a negative value the smallest \<open>k \<ge> 0\<close> with
  \<open>- 2 ^ k \<le> value\<close>; for a value of at least one the largest \<open>k\<close> with
  \<open>2 ^ k \<le> value\<close>; and \<open>- 1\<close> for a non-negative value below one, where no such
  \<open>k \<ge> 0\<close> exists. At the exact power of two \<open>4\<close> the index is \<open>2\<close>, with
  \<open>2 ^ 2 = 4\<close>, and encoding \<open>4\<close> with \<open>int_bits = 5\<close> and \<open>frac_bits = 0\<close>
  gives \<open>00100\<close>.
\<close>

theorem magnitude_search:
  "(number < 0 \<longrightarrow>
      0 \<le> start_idx number \<and> - pow2 (start_idx number) \<le> number \<and>
      (\<forall>k. 0 \<le> k \<and> - pow2 k \<le> number \<longrightarrow> start_idx number \<le> k)) \<and>
   (1 \<le> number \<longrightarrow>
      0 \<le> start_idx number \<and> pow2 (start_idx number) \<le> number \<and>
      (\<forall>k. pow2 k \<le> number \<longrightarrow> k \<le> start_idx number)) \<and>
   (0 \<le> number \<and> number < 1 \<longrightarrow> start_idx number = - 1) \<and>
   start_idx 4 = 2 \<and> pow2 2 = 4 \<and>
   float_to_bin_str 4 5 0 = (''00100'', [])"
proof -
  have neg: "0 \<le> start_idx number \<and> - pow2 (start_idx number) \<le> number \<and>
      (\<forall>k. 0 \<le> k \<and> - pow2 k \<le> number \<longrightarrow> start_idx number \<le> k)" if "number < 0"
  proof -
    define r where "r = search_neg number 0"
    from search_neg_spec [OF r_def [symmetric]]
    have r: "0 \<le> r" "- pow2 r \<le> number" "\<forall>j. 0 \<le> j \<and> j < r \<longrightarrow> number < - pow2 j"
      by auto
    have "r \<le> k" if "0 \<le> k" "- pow2 k \<le> number" for k
    proof (rule ccontr)
      assume "\<not> r \<le> k"
      with that(1) r(3) have "number < - pow2 k" by simp
      with that(2) show False by simp
    qed
    with r that show ?thesis by (simp add: start_idx_def r_def)
  qed
  define r where "r = search_pos number 0"
  from search_pos_spec [OF r_def [symmetric]]
  have r: "0 \<le> r" "number < pow2 r" "\<forall>j. 0 \<le> j \<and> j < r \<longrightarrow> pow2 j \<le> number"
    by auto
  have big: "0 \<le> start_idx number \<and> pow2 (start_idx number) \<le> number \<and>
      (\<forall>k. pow2 k \<le> number \<longrightarrow> k \<le> start_idx number)" if "1 \<le> number"
  proof -
    have idx: "start_idx number = r - 1" using that by (simp add: start_idx_def r_def)
    have "r \<noteq> 0" using r(2) that by (auto simp: pow2_0)
    with r(1) have pos: "1 \<le> r" by simp
    with r(3) have "pow2 (r - 1) \<le> number" by simp
    moreover have "k \<le> r - 1" if "pow2 k \<le> number" for k
    proof (rule ccontr)
      assume "\<not> k \<le> r - 1"
      then have "pow2 r \<le> pow2 k" by (intro pow2_mono) simp
      with that r(2) show False by simp
    qed
    ultimately show ?thesis using pos idx by simp
  qed
  have small: "start_idx number = - 1" if "0 \<le> number" "number < 1"
  proof -
    have "\<not> 0 < r"
    proof
      assume "0 < r"
      with r(3) have "pow2 0 \<le> number" by simp
      with that(2) show False by (simp add: pow2_0)
    qed
    with r(1) have "r = 0" by simp
    with that(1) show ?thesis by (simp add: start_idx_def r_def)
  qed
  have "start_idx 4 = 2" by (simp add: encoder_eval)
  moreover have "pow2 2 = 4" by (simp add: pow2_def)
  moreover have "float_to_bin_str 4 5 0 = (''00100'', [])" by (simp add: encoder_eval)
  ultimately show ?thesis using neg big small by blast
qed

theorem magnitude_search_witness:
  "start_idx (- 5) = 3 \<and> - pow2 3 \<le> (- 5 :: real) \<and> \<not> (- pow2 2 \<le> (- 5 :: real)) \<and>
   start_idx 9 = 3 \<and> pow2 3 \<le> (9 :: real) \<and> \<not> (pow2 4 \<le> (9 :: real)) \<and>
   start_idx (1 / 2) = - 1"
proof -
  have a: "start_idx (- 5) = 3" and b: "start_idx 9 = 3"
    by (simp_all add: encoder_eval)
  have c: "(0::real) \<le> 1 / 2 \<and> (1 / 2 :: real) < 1" by simp
  from magnitude_search [of "- 5"] have "- pow2 (start_idx (- 5)) \<le> (- 5 :: real)" by simp
  moreover from magnitude_search [of "- 5"] have "\<not> (- pow2 2 \<le> (- 5 :: real))"
    unfolding a by (simp add: pow2_def)
  moreover from magnitude_search [of 9] have "pow2 (start_idx 9) \<le> (9 :: real)" by simp
  moreover from magnitude_search [of 9] have "\<not> (pow2 4 \<le> (9 :: real))"
    unfolding b by (simp add: pow2_def)
  moreover from magnitude_search [of "1 / 2"] c have "start_idx (1 / 2) = - 1" by blast
  ultimately show ?thesis using a b by simp
qed













end
